theory Spec2Isabelle
  imports Complex_Main "HOL-Library.Multiset" "HOL-Library.Sublist"
begin

section \<open>Data model of package route\<close>

text \<open>
  The scoring code lives in \<^verbatim>\<open>internal/route/calculations.go\<close>; the types and
  \<^verbatim>\<open>Search\<close> live in the \<^verbatim>\<open>route.go\<close> of the same package, in the revision whose
  \<^verbatim>\<open>Route\<close> carries the field \<^verbatim>\<open>MaxDeviation\<close> (the file that starts with
  \<^verbatim>\<open>package route\<close> and declares \<^verbatim>\<open>Participant\<close>).  The older \<^verbatim>\<open>route.go\<close>, which still
  holds its own copy of the scoring functions, has the same scoring code word for word and
  a \<^verbatim>\<open>Search\<close> without the threshold; it is embedded separately as \<open>Search_unfiltered\<close>.

  Conventions of the embedding.
  \<^item> \<^verbatim>\<open>float64\<close> is \<^typ>\<open>real\<close>: finite values with exact arithmetic.  Rounding, infinities
    and NaN are outside the model.
  \<^item> \<^verbatim>\<open>uuid.UUID\<close> is represented by its canonical text, the value \<^verbatim>\<open>String()\<close> returns,
    which is all the code uses of it.
  \<^item> \<^verbatim>\<open>uint\<close> fields are \<^typ>\<open>nat\<close>; no arithmetic is done on them here.
  \<^item> A run-time panic (index out of range) is the value \<open>None\<close>.
  \<^item> Field names shared by several Go structs carry the struct's name as a prefix.
\<close>

type_synonym uuid = string

record Stop =
  Stop_ID :: uuid
  ApplicationID :: "uuid option"
  Position :: nat
  Stop_Lat :: real
  Stop_Lng :: real
  PlaceID :: "string option"
  FormattedAddress :: "string option"
  Status :: string

record Participant =
  UserID :: uuid
  Name :: string

record Route =
  Route_ID :: uuid
  CreatorID :: uuid
  CreatorName :: string
  Description :: "string option"
  StartLat :: real
  StartLng :: real
  StartPlaceID :: "string option"
  StartFormattedAddress :: "string option"
  EndLat :: real
  EndLng :: real
  EndPlaceID :: "string option"
  EndFormattedAddress :: "string option"
  MaxPassengers :: nat
  MaxDeviation :: real
  AvailablePassengers :: nat
  LeavingAt :: "int option"
  Stops :: "Stop list"
  Participants :: "Participant list"

record SearchStopInput =
  Lat :: real
  Lng :: real

record SearchInput =
  In_StartLat :: real
  In_StartLng :: real
  In_EndLat :: real
  In_EndLng :: real
  In_Stops :: "SearchStopInput list"

section \<open>groupStopsByParticipant\<close>

text \<open>
  The grouping key: the literal \<^verbatim>\<open>"creator"\<close> when \<^verbatim>\<open>ApplicationID\<close> is nil, the text of the
  UUID otherwise.
\<close>

definition uuid_String :: "uuid \<Rightarrow> string" where
  "uuid_String u = u"

definition groupKey :: "Stop \<Rightarrow> string" where
  "groupKey s = (case ApplicationID s of None \<Rightarrow> ''creator'' | Some u \<Rightarrow> uuid_String u)"

text \<open>
  The loop body of \<^verbatim>\<open>groupStopsByParticipant\<close>, with the two locals \<^verbatim>\<open>ordered\<close> and
  \<^verbatim>\<open>seen\<close> passed along.  \<^verbatim>\<open>ordered[idx]\<close> panics when \<^verbatim>\<open>idx\<close> is out of range.
\<close>

fun groupLoop :: "Stop list \<Rightarrow> Stop list list \<Rightarrow> (string \<rightharpoonup> nat) \<Rightarrow> Stop list list option" where
  "groupLoop [] ordered seen = Some ordered"
| "groupLoop (s # stops) ordered seen =
     (let k = groupKey s;
          (idx, seen', ordered') =
             (case seen k of
                None \<Rightarrow> (length ordered, seen(k \<mapsto> length ordered), ordered @ [[]])
              | Some i \<Rightarrow> (i, seen, ordered))
      in if idx < length ordered'
         then groupLoop stops (ordered'[idx := ordered' ! idx @ [s]]) seen'
         else None)"

definition groupStopsByParticipant :: "Stop list \<Rightarrow> Stop list list option" where
  "groupStopsByParticipant stops = groupLoop stops [] Map.empty"

section \<open>allInterleavings\<close>

definition totalLen :: "Stop list list \<Rightarrow> nat" where
  "totalLen groups = foldl (\<lambda>n g. n + length g) 0 groups"

text \<open>
  The first loop of the closure \<^verbatim>\<open>gen\<close>: is every cursor at the end of its group?
  \<^verbatim>\<open>indices[g]\<close> panics when the cursor slice is shorter than \<^verbatim>\<open>groups\<close>.
\<close>

function doneLoop :: "Stop list list \<Rightarrow> nat list \<Rightarrow> nat \<Rightarrow> bool option" where
  "doneLoop groups indices g =
     (if g < length groups
      then (if g < length indices
            then (if indices ! g < length (groups ! g) then Some False
                  else doneLoop groups indices (g + 1))
            else None)
      else Some True)"
  by pat_completeness auto
termination
  by (relation "measure (\<lambda>(groups, indices, g). length groups - g)") auto

declare doneLoop.simps [simp del]

text \<open>
  What is left to place: the sum over the cursors of the distance to the end of their
  groups.  It decreases along every recursive call of \<^verbatim>\<open>gen\<close>.
\<close>

definition remaining :: "Stop list list \<Rightarrow> nat list \<Rightarrow> nat" where
  "remaining groups indices =
     sum_list (map (\<lambda>g. length (groups ! g) - indices ! g) [0..<length indices])"

lemma remaining_step:
  assumes "g < length indices" "indices ! g < length (groups ! g)"
  shows "remaining groups (indices[g := indices ! g + 1]) < remaining groups indices"
proof -
  let ?f = "\<lambda>ix j. length (groups ! j) - ix ! j"
  let ?ix' = "indices[g := indices ! g + 1]"
  have split: "[0..<length indices] = [0..<g] @ g # [Suc g..<length indices]"
    using assms(1) by (metis le0 upt_conv_Cons upt_add_eq_append le_add_diff_inverse less_imp_le_nat add.commute)
  have a: "map (?f ?ix') [0..<g] = map (?f indices) [0..<g]"
    by (rule map_cong) auto
  have b: "map (?f ?ix') [Suc g..<length indices] = map (?f indices) [Suc g..<length indices]"
    by (rule map_cong) auto
  have c: "?f ?ix' g < ?f indices g"
    using assms by simp
  have sum_split: "sum_list (map h [0..<length indices])
      = sum_list (map h [0..<g]) + h g + sum_list (map h [Suc g..<length indices])"
    for h :: "nat \<Rightarrow> nat"
  proof -
    have "sum_list (map h [0..<length indices])
            = sum_list (map h ([0..<g] @ g # [Suc g..<length indices]))"
      using split by (rule arg_cong)
    then show ?thesis by simp
  qed
  have a': "sum_list (map (?f ?ix') [0..<g]) = sum_list (map (?f indices) [0..<g])"
    using a by (rule arg_cong)
  have b': "sum_list (map (?f ?ix') [Suc g..<length indices])
              = sum_list (map (?f indices) [Suc g..<length indices])"
    using b by (rule arg_cong)
  have "remaining groups ?ix' = sum_list (map (?f ?ix') [0..<g]) + ?f ?ix' g
          + sum_list (map (?f ?ix') [Suc g..<length indices])"
    unfolding remaining_def length_list_update by (rule sum_split)
  also have "\<dots> = sum_list (map (?f indices) [0..<g]) + ?f ?ix' g
          + sum_list (map (?f indices) [Suc g..<length indices])"
    by (simp only: a' b')
  also have "\<dots> < sum_list (map (?f indices) [0..<g]) + ?f indices g
          + sum_list (map (?f indices) [Suc g..<length indices])"
    using c by linarith
  also have "\<dots> = remaining groups indices"
    unfolding remaining_def by (rule sum_split [symmetric])
  finally show ?thesis .
qed

text \<open>
  The closure \<^verbatim>\<open>gen\<close> and its second loop.  The three variables the closure captures
  and mutates are the fields of a state that each call takes and returns: \<^verbatim>\<open>result\<close>,
  \<^verbatim>\<open>indices\<close> and \<^verbatim>\<open>current\<close>.  \<^verbatim>\<open>append([]Stop{}, current...)\<close> stores a copy of
  \<^verbatim>\<open>current\<close>, as a value is.  \<^verbatim>\<open>indices[g]--\<close> panics on an index out of range and
  \<^verbatim>\<open>current[:len(current)-1]\<close> on an empty slice.
\<close>

record genState =
  st_result :: "Stop list list"
  st_indices :: "nat list"
  st_current :: "Stop list"

function gen :: "Stop list list \<Rightarrow> int \<Rightarrow> genState \<Rightarrow> genState option"
  and genLoop :: "Stop list list \<Rightarrow> int \<Rightarrow> nat \<Rightarrow> genState \<Rightarrow> genState option"
where
  "gen groups maxN st =
     (if int (length (st_result st)) \<ge> maxN then Some st
      else (case doneLoop groups (st_indices st) 0 of
              None \<Rightarrow> None
            | Some True \<Rightarrow> Some (st\<lparr>st_result := st_result st @ [st_current st]\<rparr>)
            | Some False \<Rightarrow> genLoop groups maxN 0 st))"
| "genLoop groups maxN g st =
     (if g < length groups
      then (if g < length (st_indices st)
            then (if st_indices st ! g < length (groups ! g)
                  then (case gen groups maxN
                               (st\<lparr>st_current := st_current st @ [groups ! g ! (st_indices st ! g)],
                                  st_indices := (st_indices st)[g := st_indices st ! g + 1]\<rparr>) of
                          None \<Rightarrow> None
                        | Some st' \<Rightarrow>
                            if g < length (st_indices st') \<and> st_current st' \<noteq> []
                            then genLoop groups maxN (g + 1)
                                   (st'\<lparr>st_indices := (st_indices st')[g := st_indices st' ! g - 1],
                                       st_current := butlast (st_current st')\<rparr>)
                            else None)
                  else genLoop groups maxN (g + 1) st)
            else None)
      else Some st)"
  by pat_completeness auto

text \<open>
  A call of \<^verbatim>\<open>gen\<close> leaves \<^verbatim>\<open>indices\<close> and \<^verbatim>\<open>current\<close> as it found them: every step
  forward is undone after the recursive call.  The recursion ends for this reason, and the
  cursor that is decremented is the one just incremented.
\<close>

lemma gen_keeps:
  "gen_genLoop_dom (Inl (groups, maxN, st)) \<Longrightarrow> gen groups maxN st = Some st' \<Longrightarrow>
     st_indices st' = st_indices st \<and> st_current st' = st_current st"
  "gen_genLoop_dom (Inr (groups, maxN, g, st)) \<Longrightarrow> genLoop groups maxN g st = Some st' \<Longrightarrow>
     st_indices st' = st_indices st \<and> st_current st' = st_current st"
proof (induction groups maxN st and groups maxN g st arbitrary: st' and st'
       rule: gen_genLoop.pinduct)
  case (1 groups maxN st)
  from "1.prems" "1.hyps" show ?case
    by (auto simp: gen.psimps split: if_splits option.splits bool.splits dest: "1.IH")
next
  case (2 groups maxN g st)
  let ?up = "st\<lparr>st_current := st_current st @ [groups ! g ! (st_indices st ! g)],
                 st_indices := (st_indices st)[g := st_indices st ! g + 1]\<rparr>"
  have eq: "genLoop groups maxN g st = Some st'" by (rule "2.prems")
  show ?case
  proof (cases "g < length groups \<and> g < length (st_indices st)")
    case False
    with eq "2.hyps" show ?thesis by (auto simp: genLoop.psimps split: if_splits)
  next
    case True
    show ?thesis
    proof (cases "st_indices st ! g < length (groups ! g)")
      case False
      with True eq "2.hyps" have "genLoop groups maxN (g + 1) st = Some st'"
        by (simp add: genLoop.psimps)
      with True False show ?thesis by (intro "2.IH"(3)) simp_all
    next
      case adv: True
      from True adv eq "2.hyps" obtain st1 where
        s1: "gen groups maxN ?up = Some st1"
            "g < length (st_indices st1)" "st_current st1 \<noteq> []"
            "genLoop groups maxN (g + 1)
               (st1\<lparr>st_indices := (st_indices st1)[g := st_indices st1 ! g - 1],
                    st_current := butlast (st_current st1)\<rparr>) = Some st'"
        by (auto simp: genLoop.psimps split: option.splits if_splits)
      have k1: "st_indices st1 = st_indices ?up \<and> st_current st1 = st_current ?up"
        using True adv s1(1) by (intro "2.IH"(1)) simp_all
      let ?undone = "st1\<lparr>st_indices := (st_indices st1)[g := st_indices st1 ! g - 1],
                       st_current := butlast (st_current st1)\<rparr>"
      have k2: "st_indices st' = st_indices ?undone \<and> st_current st' = st_current ?undone"
        using True adv s1 by (intro "2.IH"(2)) simp_all
      from k1 k2 True show ?thesis by (simp add: list_update_same_conv)
    qed
  qed
qed

termination gen
proof (relation "inv_image (less_than <*lex*> less_than)
         (\<lambda>x. case x of
                 Inl (groups, maxN, st) \<Rightarrow> (remaining groups (st_indices st), length groups + 1)
               | Inr (groups, maxN, g, st) \<Rightarrow>
                   (remaining groups (st_indices st), length groups - g))", goal_cases)
  case 1
  show ?case by (intro wf_inv_image wf_lex_prod wf_less_than)
next
  case (2 groups maxN st)
  show ?case by simp
next
  case (3 groups maxN g st)
  then show ?case using remaining_step [of g "st_indices st" groups] by simp
next
  case (4 groups maxN g st st1)
  from gen_keeps(1) [OF "4"(6) "4"(4)] "4"(1,2)
  show ?case by (simp add: list_update_same_conv)
next
  case (5 groups maxN g st)
  then show ?case by auto
qed

declare gen.simps [simp del] genLoop.simps [simp del]


definition allInterleavings :: "Stop list list \<Rightarrow> int \<Rightarrow> Stop list list option" where
  "allInterleavings groups maxN =
     (if length groups = 0 then Some []
      else if length groups = 1 then Some [groups ! 0]
      else map_option st_result
             (gen groups maxN
                \<lparr>st_result = [], st_indices = replicate (length groups) 0, st_current = []\<rparr>))"

text \<open>
  The same enumeration with \<^verbatim>\<open>indices\<close> and \<^verbatim>\<open>current\<close> passed by value and only
  \<^verbatim>\<open>result\<close> threaded through.  The closure computes exactly this (\<open>gen_genF\<close> below); the
  properties are proved on this form.
\<close>

function genF :: "Stop list list \<Rightarrow> int \<Rightarrow> nat list \<Rightarrow> Stop list \<Rightarrow> Stop list list
                  \<Rightarrow> Stop list list option"
  and genLoopF :: "Stop list list \<Rightarrow> int \<Rightarrow> nat \<Rightarrow> nat list \<Rightarrow> Stop list \<Rightarrow> Stop list list
                  \<Rightarrow> Stop list list option"
where
  "genF groups maxN indices current result =
     (if int (length result) \<ge> maxN then Some result
      else (case doneLoop groups indices 0 of
              None \<Rightarrow> None
            | Some True \<Rightarrow> Some (result @ [current])
            | Some False \<Rightarrow> genLoopF groups maxN 0 indices current result))"
| "genLoopF groups maxN g indices current result =
     (if g < length groups
      then (if g < length indices
            then (if indices ! g < length (groups ! g)
                  then (case genF groups maxN (indices[g := indices ! g + 1])
                               (current @ [groups ! g ! (indices ! g)]) result of
                          None \<Rightarrow> None
                        | Some result' \<Rightarrow> genLoopF groups maxN (g + 1) indices current result')
                  else genLoopF groups maxN (g + 1) indices current result)
            else None)
      else Some result)"
  by pat_completeness auto

termination
proof (relation "inv_image (less_than <*lex*> less_than)
         (\<lambda>x. case x of
                 Inl (groups, maxN, indices, current, result) \<Rightarrow>
                   (remaining groups indices, length groups + 1)
               | Inr (groups, maxN, g, indices, current, result) \<Rightarrow>
                   (remaining groups indices, length groups - g))", goal_cases)
  case 1
  show ?case by (intro wf_inv_image wf_lex_prod wf_less_than)
next
  case (2 groups maxN indices current result)
  show ?case by simp
next
  case (3 groups maxN g indices current result)
  then show ?case using remaining_step [of g indices groups] by simp
next
  case (4 groups maxN g indices current result x2)
  then show ?case by auto
next
  case (5 groups maxN g indices current result)
  then show ?case by auto
qed

declare genF.simps [simp del] genLoopF.simps [simp del]

section \<open>Haversine\<close>

definition earthRadiusKm :: real where
  "earthRadiusKm = 6371"

text \<open>
  \<^verbatim>\<open>math.Atan2(y, x)\<close> on finite arguments: the angle of the point \<open>(x, y)\<close>, in
  \<open>(-\<pi>, \<pi>]\<close>, and \<open>0\<close> at the origin.
\<close>

definition Atan2 :: "real \<Rightarrow> real \<Rightarrow> real" where
  "Atan2 y x =
     (if x > 0 then arctan (y / x)
      else if x < 0 then (if y \<ge> 0 then arctan (y / x) + pi else arctan (y / x) - pi)
      else (if y > 0 then pi / 2 else if y < 0 then - (pi / 2) else 0))"

text \<open>
  \<^verbatim>\<open>Haversine\<close>, with the local \<^verbatim>\<open>a\<close> as a function of its own.  \<^verbatim>\<open>math.Sqrt\<close> is
  \<^term>\<open>sqrt\<close>; its arguments here are never negative (\<open>haversine_a_range\<close> below).
\<close>

definition haversine_a :: "real \<Rightarrow> real \<Rightarrow> real \<Rightarrow> real \<Rightarrow> real" where
  "haversine_a lat1 lng1 lat2 lng2 =
     (let dLat = (lat2 - lat1) * pi / 180;
          dLng = (lng2 - lng1) * pi / 180
      in sin (dLat / 2) * sin (dLat / 2) +
         cos (lat1 * pi / 180) * cos (lat2 * pi / 180) * sin (dLng / 2) * sin (dLng / 2))"

definition Haversine :: "real \<Rightarrow> real \<Rightarrow> real \<Rightarrow> real \<Rightarrow> real" where
  "Haversine lat1 lng1 lat2 lng2 =
     (let a = haversine_a lat1 lng1 lat2 lng2;
          c = 2 * Atan2 (sqrt a) (sqrt (1 - a))
      in earthRadiusKm * c)"

section \<open>Segments and distances\<close>

definition midpoint2 :: "real \<Rightarrow> real \<Rightarrow> real \<Rightarrow> real \<Rightarrow> real \<times> real" where
  "midpoint2 lat1 lng1 lat2 lng2 = ((lat1 + lat2) / 2, (lng1 + lng2) / 2)"

text \<open>The loop of \<^verbatim>\<open>buildSegmentsFromStops\<close> with its locals \<^verbatim>\<open>prevLat\<close>, \<^verbatim>\<open>prevLng\<close>, \<^verbatim>\<open>segs\<close>.\<close>

fun segLoop :: "real \<Rightarrow> real \<Rightarrow> Stop list \<Rightarrow> (real \<times> real) list
                  \<Rightarrow> real \<times> real \<times> (real \<times> real) list" where
  "segLoop prevLat prevLng [] segs = (prevLat, prevLng, segs)"
| "segLoop prevLat prevLng (s # stops) segs =
     segLoop (Stop_Lat s) (Stop_Lng s) stops
       (segs @ [midpoint2 prevLat prevLng (Stop_Lat s) (Stop_Lng s)])"

definition buildSegmentsFromStops ::
    "real \<Rightarrow> real \<Rightarrow> real \<Rightarrow> real \<Rightarrow> Stop list \<Rightarrow> (real \<times> real) list" where
  "buildSegmentsFromStops startLat startLng endLat endLng stops =
     (if length stops = 0 then [midpoint2 startLat startLng endLat endLng]
      else (case segLoop startLat startLng stops [] of
              (prevLat, prevLng, segs) \<Rightarrow> segs @ [midpoint2 prevLat prevLng endLat endLng]))"

text \<open>\<^verbatim>\<open>math.MaxFloat64\<close>, the largest finite \<^verbatim>\<open>float64\<close>: \<open>2 ^ 1023 * (2 - 2 ^ - 52)\<close>.\<close>

definition MaxFloat64 :: real where
  "MaxFloat64 = 2 ^ 1023 * (2 - 1 / 2 ^ 52)"

fun minDistanceLoop :: "real \<Rightarrow> real \<Rightarrow> (real \<times> real) list \<Rightarrow> real \<Rightarrow> real" where
  "minDistanceLoop lat lng [] m = m"
| "minDistanceLoop lat lng (seg # segments) m =
     (let d = Haversine lat lng (fst seg) (snd seg)
      in minDistanceLoop lat lng segments (if d < m then d else m))"

definition minDistanceToSegment :: "real \<Rightarrow> real \<Rightarrow> (real \<times> real) list \<Rightarrow> real" where
  "minDistanceToSegment lat lng segments = minDistanceLoop lat lng segments MaxFloat64"

fun devLoop :: "SearchStopInput list \<Rightarrow> (real \<times> real) list \<Rightarrow> real \<Rightarrow> real" where
  "devLoop [] segments dev = dev"
| "devLoop (us # rest) segments dev =
     devLoop rest segments (dev + minDistanceToSegment (Lat us) (Lng us) segments)"

definition deviationForStops ::
    "real \<Rightarrow> real \<Rightarrow> real \<Rightarrow> real \<Rightarrow> Stop list \<Rightarrow> SearchInput \<Rightarrow> real" where
  "deviationForStops startLat startLng endLat endLng stops search =
     (let segments = buildSegmentsFromStops startLat startLng endLat endLng stops
      in devLoop (In_Stops search) segments 0)"

section \<open>CalculateDeviation\<close>

definition maxInterleavings :: int where
  "maxInterleavings = 500"

text \<open>
  \<^verbatim>\<open>CalculateDeviation\<close>: its loop over the orderings, the local \<^verbatim>\<open>baseDev\<close>, and the
  function.  The route is passed by pointer; the callers pass the address of a route they
  hold, so the pointer is not nil.
\<close>

fun minStopDevLoop :: "Route \<Rightarrow> SearchInput \<Rightarrow> Stop list list \<Rightarrow> real \<Rightarrow> real" where
  "minStopDevLoop route search [] minStopDev = minStopDev"
| "minStopDevLoop route search (ordered # orderings) minStopDev =
     (let d = deviationForStops (StartLat route) (StartLng route) (EndLat route) (EndLng route)
                ordered search
      in minStopDevLoop route search orderings (if d < minStopDev then d else minStopDev))"

definition baseDev :: "Route \<Rightarrow> SearchInput \<Rightarrow> real" where
  "baseDev route search =
     Haversine (In_StartLat search) (In_StartLng search) (StartLat route) (StartLng route) +
     Haversine (In_EndLat search) (In_EndLng search) (EndLat route) (EndLng route)"

definition CalculateDeviation :: "Route \<Rightarrow> SearchInput \<Rightarrow> real option" where
  "CalculateDeviation route search =
     (case groupStopsByParticipant (Stops route) of
        None \<Rightarrow> None
      | Some groups \<Rightarrow>
          (case allInterleavings groups maxInterleavings of
             None \<Rightarrow> None
           | Some orderings \<Rightarrow>
               if length orderings = 0
               then Some (baseDev route search +
                      deviationForStops (StartLat route) (StartLng route) (EndLat route)
                        (EndLng route) (Stops route) search)
               else Some (baseDev route search +
                      minStopDevLoop route search orderings MaxFloat64)))"

section \<open>Search\<close>

record routeWithDev =
  route :: Route
  dev :: real

text \<open>
  \<^verbatim>\<open>sort.Slice\<close> is the standard library's; it is modelled by the insertion sort the
  library runs on short slices, driven by the caller's \<^verbatim>\<open>less\<close>: each element moves left
  while it is less than its left neighbour.  The sorted prefix is kept reversed, so the
  left neighbour is the head.  Only what every sorting routine guarantees is used below.
\<close>

fun insertLeft :: "('a \<Rightarrow> 'a \<Rightarrow> bool) \<Rightarrow> 'a \<Rightarrow> 'a list \<Rightarrow> 'a list" where
  "insertLeft lessFn x [] = [x]"
| "insertLeft lessFn x (y # ys) =
     (if lessFn x y then y # insertLeft lessFn x ys else x # y # ys)"

definition sort_Slice :: "'a list \<Rightarrow> ('a \<Rightarrow> 'a \<Rightarrow> bool) \<Rightarrow> 'a list" where
  "sort_Slice xs lessFn = rev (foldl (\<lambda>acc x. insertLeft lessFn x acc) [] xs)"

text \<open>The scoring loop of \<^verbatim>\<open>Search\<close>: a route whose score exceeds its threshold is skipped.\<close>

fun searchLoop :: "Route list \<Rightarrow> SearchInput \<Rightarrow> routeWithDev list \<Rightarrow> routeWithDev list option" where
  "searchLoop [] inp withDev = Some withDev"
| "searchLoop (r # routes) inp withDev =
     (case CalculateDeviation r inp of
        None \<Rightarrow> None
      | Some d \<Rightarrow>
          if d > MaxDeviation r then searchLoop routes inp withDev
          else searchLoop routes inp (withDev @ [\<lparr>route = r, dev = d\<rparr>]))"

text \<open>
  \<^verbatim>\<open>Search\<close>.  The outcome of \<^verbatim>\<open>fetchSearchableRoutes\<close>, a database query, is the
  parameter \<open>fetched\<close>: an error or the list of routes with free seats.  The result is
  \<open>None\<close> on a panic, otherwise the returned error or the returned routes.
\<close>

definition Search :: "'e + Route list \<Rightarrow> SearchInput \<Rightarrow> ('e + Route list) option" where
  "Search fetched inp =
     (case fetched of
        Inl err \<Rightarrow> Some (Inl err)
      | Inr routes \<Rightarrow>
          (case searchLoop routes inp [] of
             None \<Rightarrow> None
           | Some withDev \<Rightarrow>
               Some (Inr (map route (sort_Slice withDev (\<lambda>a b. dev a < dev b))))))"

text \<open>
  The \<^verbatim>\<open>Search\<close> of the older \<^verbatim>\<open>route.go\<close>, whose \<^verbatim>\<open>Route\<close> has no threshold: every
  fetched route is scored and kept, then the same sort.
\<close>

fun scoreLoop :: "Route list \<Rightarrow> SearchInput \<Rightarrow> routeWithDev list \<Rightarrow> routeWithDev list option" where
  "scoreLoop [] inp withDev = Some withDev"
| "scoreLoop (r # routes) inp withDev =
     (case CalculateDeviation r inp of
        None \<Rightarrow> None
      | Some d \<Rightarrow> scoreLoop routes inp (withDev @ [\<lparr>route = r, dev = d\<rparr>]))"

definition Search_unfiltered :: "'e + Route list \<Rightarrow> SearchInput \<Rightarrow> ('e + Route list) option" where
  "Search_unfiltered fetched inp =
     (case fetched of
        Inl err \<Rightarrow> Some (Inl err)
      | Inr routes \<Rightarrow>
          (case scoreLoop routes inp [] of
             None \<Rightarrow> None
           | Some withDev \<Rightarrow>
               Some (Inr (map route (sort_Slice withDev (\<lambda>a b. dev a < dev b))))))"

section \<open>Vocabulary of the properties\<close>

text \<open>
  The walk of a route through an ordering of its stops: the start, the stops' coordinates,
  the end.  Its consecutive pairs are the legs.
\<close>

definition stopCoord :: "Stop \<Rightarrow> real \<times> real" where
  "stopCoord s = (Stop_Lat s, Stop_Lng s)"

definition walk :: "real \<Rightarrow> real \<Rightarrow> real \<Rightarrow> real \<Rightarrow> Stop list \<Rightarrow> (real \<times> real) list" where
  "walk startLat startLng endLat endLng stops =
     (startLat, startLng) # map stopCoord stops @ [(endLat, endLng)]"

definition pairMidpoint :: "real \<times> real \<Rightarrow> real \<times> real \<Rightarrow> real \<times> real" where
  "pairMidpoint p q = ((fst p + fst q) / 2, (snd p + snd q) / 2)"

text \<open>
  \<open>isMerge gs xs\<close>: the list \<open>xs\<close> is an order-preserving merge of the lists \<open>gs\<close>.  Its
  first element is the head of one of the lists, and the rest merges what remains.
\<close>

fun isMerge :: "'a list list \<Rightarrow> 'a list \<Rightarrow> bool" where
  "isMerge gs [] = list_all (\<lambda>g. g = []) gs"
| "isMerge gs (x # xs) =
     list_ex (\<lambda>i. gs ! i \<noteq> [] \<and> hd (gs ! i) = x \<and> isMerge (gs[i := tl (gs ! i)]) xs)
       [0..<length gs]"

text \<open>
  The state of the enumeration: one cursor per group, none beyond the end of its group;
  \<open>suffixes\<close> are the parts of the groups still to place.  \<open>genPost\<close> says what a call of
  \<^verbatim>\<open>gen\<close> does to \<^verbatim>\<open>result\<close>: it appends orderings that extend \<^verbatim>\<open>current\<close> by a merge of
  the suffixes, and does not grow a result beyond the cap.
\<close>

definition cursorsOk :: "'a list list \<Rightarrow> nat list \<Rightarrow> bool" where
  "cursorsOk groups indices \<longleftrightarrow>
     length indices = length groups \<and>
     list_all (\<lambda>g. indices ! g \<le> length (groups ! g)) [0..<length groups]"

definition suffixes :: "'a list list \<Rightarrow> nat list \<Rightarrow> 'a list list" where
  "suffixes groups indices = map (\<lambda>g. drop (indices ! g) (groups ! g)) [0..<length groups]"


definition genPost ::
    "Stop list list \<Rightarrow> int \<Rightarrow> nat list \<Rightarrow> Stop list \<Rightarrow> Stop list list
       \<Rightarrow> Stop list list option \<Rightarrow> bool" where
  "genPost groups maxN indices current result r \<longleftrightarrow>
     (\<exists>added. r = Some (result @ added)
        \<and> (\<forall>ordering\<in>set added.
              \<exists>tail. ordering = current @ tail \<and> isMerge (suffixes groups indices) tail)
        \<and> int (length (result @ added)) \<le> max maxN (int (length result)))"

text \<open>An entry of \<^verbatim>\<open>withDev\<close> carries the score of its route, and the score is within the
  route's threshold.\<close>

definition scored :: "SearchInput \<Rightarrow> routeWithDev \<Rightarrow> bool" where
  "scored inp x \<longleftrightarrow>
     CalculateDeviation (route x) inp = Some (dev x) \<and> \<not> dev x > MaxDeviation (route x)"

section \<open>Example values\<close>

text \<open>A stop with the optional fields nil, and the fixture of the package's tests.\<close>

definition mkStop :: "uuid \<Rightarrow> uuid option \<Rightarrow> nat \<Rightarrow> real \<Rightarrow> real \<Rightarrow> Stop" where
  "mkStop i app pos la lo =
     \<lparr>Stop_ID = i, ApplicationID = app, Position = pos, Stop_Lat = la, Stop_Lng = lo,
      PlaceID = None, FormattedAddress = None, Status = ''approved''\<rparr>"

definition stopA :: Stop where
  "stopA = mkStop ''stop-a'' None 0 1 1"

definition stopB :: Stop where
  "stopB = mkStop ''stop-b'' None 1 2 2"

definition stopC :: Stop where
  "stopC = mkStop ''stop-c'' (Some ''app-1'') 2 1 2"

text \<open>
  The route of the end-to-end test: from (0, 0) to (3, 3) with two stops of one
  contributor, and a search along it with one via-point.
\<close>

definition mkRoute :: "uuid \<Rightarrow> real \<Rightarrow> real \<Rightarrow> real \<Rightarrow> real \<Rightarrow> real \<Rightarrow> Stop list \<Rightarrow> Route" where
  "mkRoute i sla slo ela elo maxDev stops =
     \<lparr>Route_ID = i, CreatorID = ''user-1'', CreatorName = ''driver'', Description = None,
      StartLat = sla, StartLng = slo, StartPlaceID = None, StartFormattedAddress = None,
      EndLat = ela, EndLng = elo, EndPlaceID = None, EndFormattedAddress = None,
      MaxPassengers = 3, MaxDeviation = maxDev, AvailablePassengers = 2, LeavingAt = None,
      Stops = stops, Participants = []\<rparr>"

definition exRoute :: Route where
  "exRoute = mkRoute ''route-1'' 0 0 3 3 50 [stopA, stopB]"

definition exSearch :: SearchInput where
  "exSearch = \<lparr>In_StartLat = 0, In_StartLng = 0, In_EndLat = 3, In_EndLng = 3,
               In_Stops = [\<lparr>Lat = 3 / 2, Lng = 3 / 2\<rparr>]\<rparr>"

text \<open>
  Three routes without stops and a search without via-points from (0, 0) to (3, 3): one
  route starts where the search starts, two start half way round the equator, one of them
  with a threshold wide enough for that.
\<close>

definition routeNear :: Route where
  "routeNear = mkRoute ''near'' 0 0 3 3 50 []"

definition routeFar :: Route where
  "routeFar = mkRoute ''far'' 0 180 3 3 50 []"

definition routeWide :: Route where
  "routeWide = mkRoute ''wide'' 0 180 3 3 30000 []"

definition plainSearch :: SearchInput where
  "plainSearch = \<lparr>In_StartLat = 0, In_StartLng = 0, In_EndLat = 3, In_EndLng = 3,
                  In_Stops = []\<rparr>"

section \<open>Properties of groupStopsByParticipant\<close>

lemma length_concat_update:
  "i < length xs \<Longrightarrow> length (concat (xs[i := xs ! i @ [s]])) = Suc (length (concat xs))"
proof (induction xs arbitrary: i)
  case Nil
  then show ?case by simp
next
  case (Cons x xs)
  then show ?case by (cases i) auto
qed

lemma groupLoop_total:
  assumes "\<forall>k i. seen k = Some i \<longrightarrow> i < length ordered"
  shows "\<exists>gs. groupLoop stops ordered seen = Some gs
           \<and> length (concat gs) = length (concat ordered) + length stops"
  using assms
proof (induction stops arbitrary: ordered seen)
  case Nil
  then show ?case by simp
next
  case (Cons s stops)
  show ?case
  proof (cases "seen (groupKey s)")
    case None
    let ?o = "ordered @ [[s]]"
    let ?m = "seen(groupKey s \<mapsto> length ordered)"
    have step: "groupLoop (s # stops) ordered seen = groupLoop stops ?o ?m"
      using None by simp
    have inv: "\<forall>k i. ?m k = Some i \<longrightarrow> i < length ?o"
      using Cons.prems by (auto simp: less_Suc_eq)
    from Cons.IH [OF inv] obtain gs where
      gs: "groupLoop stops ?o ?m = Some gs"
          "length (concat gs) = length (concat ?o) + length stops"
      by blast
    show ?thesis
      unfolding step using gs by simp
  next
    case (Some i)
    then have i: "i < length ordered" using Cons.prems by blast
    let ?o = "ordered[i := ordered ! i @ [s]]"
    have step: "groupLoop (s # stops) ordered seen = groupLoop stops ?o seen"
      using Some i by simp
    have inv: "\<forall>k j. seen k = Some j \<longrightarrow> j < length ?o"
      using Cons.prems by simp
    from Cons.IH [OF inv] obtain gs where
      gs: "groupLoop stops ?o seen = Some gs"
          "length (concat gs) = length (concat ?o) + length stops"
      by blast
    show ?thesis
      unfolding step using gs length_concat_update [OF i, of s] by simp
  qed
qed

lemma groupLoop_single:
  assumes "\<forall>s\<in>set stops. groupKey s = k" "seen k = Some 0"
  shows "groupLoop stops [g0] seen = Some [g0 @ stops]"
  using assms
proof (induction stops arbitrary: g0)
  case Nil
  then show ?case by simp
next
  case (Cons s stops)
  then have "groupLoop stops [(g0 @ [s])] seen = Some [(g0 @ [s]) @ stops]" by simp
  with Cons.prems show ?case by simp
qed

text \<open>
  Claim C7.  \<^verbatim>\<open>groupStopsByParticipant\<close> never panics and the groups it returns hold as many
  stops as the input; the empty list gives no group; a non-empty list whose stops all have
  the same \<^verbatim>\<open>ApplicationID\<close> (nil for the creator) gives the single group of all stops in
  their order.
\<close>

theorem groupStopsByParticipant_counts:
  "(\<exists>groups. groupStopsByParticipant stops = Some groups \<and> length (concat groups) = length stops)
   \<and> groupStopsByParticipant [] = Some []
   \<and> (stops \<noteq> [] \<and> (\<forall>s\<in>set stops. ApplicationID s = a)
        \<longrightarrow> groupStopsByParticipant stops = Some [stops])"
proof (intro conjI impI)
  show "\<exists>groups. groupStopsByParticipant stops = Some groups \<and> length (concat groups) = length stops"
    using groupLoop_total [of Map.empty "[]" stops] by (simp add: groupStopsByParticipant_def)
  show "groupStopsByParticipant [] = Some []"
    by (simp add: groupStopsByParticipant_def)
next
  assume a: "stops \<noteq> [] \<and> (\<forall>s\<in>set stops. ApplicationID s = a)"
  then obtain s rest where sr: "stops = s # rest" by (cases stops) auto
  let ?k = "groupKey s"
  have keys: "\<forall>t\<in>set rest. groupKey t = ?k"
    using a sr by (simp add: groupKey_def)
  have "groupLoop rest [[s]] (Map.empty(?k \<mapsto> 0)) = Some [[s] @ rest]"
    by (rule groupLoop_single [OF keys]) simp
  then show "groupStopsByParticipant stops = Some [stops]"
    using sr by (simp add: groupStopsByParticipant_def)
qed

theorem groupStopsByParticipant_counts_witness:
  "[stopA, stopB] \<noteq> [] \<and> ApplicationID stopA = None \<and> ApplicationID stopB = None
   \<and> groupStopsByParticipant [stopA, stopB] = Some [[stopA, stopB]]"
  using groupStopsByParticipant_counts [of "[stopA, stopB]" None]
  by (simp add: stopA_def stopB_def mkStop_def)

section \<open>Properties of buildSegmentsFromStops\<close>

lemma segLoop_eq:
  "segLoop pLat pLng stops segs =
     (fst (last ((pLat, pLng) # map stopCoord stops)),
      snd (last ((pLat, pLng) # map stopCoord stops)),
      segs @ map (\<lambda>i. pairMidpoint (((pLat, pLng) # map stopCoord stops) ! i)
                                    (((pLat, pLng) # map stopCoord stops) ! Suc i))
               [0..<length stops])"
proof (induction stops arbitrary: pLat pLng segs)
  case Nil
  then show ?case by simp
next
  case (Cons s stops)
  show ?case
    by (simp add: Cons.IH map_upt_Suc stopCoord_def pairMidpoint_def midpoint2_def del: upt_Suc)
qed

lemma buildSegments_eq:
  "buildSegmentsFromStops a b c d stops =
     map (\<lambda>i. pairMidpoint (walk a b c d stops ! i) (walk a b c d stops ! Suc i))
       [0..<length stops + 1]"
proof (cases stops)
  case Nil
  then show ?thesis
    by (simp add: buildSegmentsFromStops_def walk_def pairMidpoint_def midpoint2_def)
next
  case (Cons s rest)
  let ?pts = "(a, b) # map stopCoord stops"
  have w: "walk a b c d stops = ?pts @ [(c, d)]" by (simp add: walk_def)
  have lp: "length ?pts = Suc (length stops)" by simp
  have inner: "map (\<lambda>i. pairMidpoint (walk a b c d stops ! i) (walk a b c d stops ! Suc i))
                  [0..<length stops]
             = map (\<lambda>i. pairMidpoint (?pts ! i) (?pts ! Suc i)) [0..<length stops]"
    unfolding w by (rule map_cong) (auto simp: nth_append nth_Cons split: nat.splits)
  have lastw: "walk a b c d stops ! length stops = last ?pts"
    unfolding w using lp by (metis last_conv_nth length_greater_0_conv lessI nth_append diff_Suc_1 zero_less_Suc list.size(3) nat.distinct(1))
  have endw: "walk a b c d stops ! Suc (length stops) = (c, d)"
    unfolding w using lp by (metis nth_append_length)
  have ne: "length stops \<noteq> 0" using Cons by simp
  let ?F = "\<lambda>i. pairMidpoint (walk a b c d stops ! i) (walk a b c d stops ! Suc i)"
  let ?G = "\<lambda>i. pairMidpoint (?pts ! i) (?pts ! Suc i)"
  have "buildSegmentsFromStops a b c d stops =
          (case segLoop a b stops [] of
             (prevLat, prevLng, segs) \<Rightarrow> segs @ [midpoint2 prevLat prevLng c d])"
    unfolding buildSegmentsFromStops_def using ne by (simp only: if_False)
  also have "\<dots> = map ?G [0..<length stops]
                      @ [midpoint2 (fst (last ?pts)) (snd (last ?pts)) c d]"
    unfolding segLoop_eq [of a b stops "[]"] by (simp only: prod.case append_Nil)
  also have "\<dots> = map ?F [0..<length stops] @ [?F (length stops)]"
    unfolding inner lastw endw by (simp only: pairMidpoint_def midpoint2_def fst_conv snd_conv)
  also have "\<dots> = map ?F [0..<length stops + 1]"
    by simp
  finally show ?thesis .
qed

text \<open>
  Claim C6.  For an empty stop list \<^verbatim>\<open>buildSegmentsFromStops\<close> returns the one midpoint of
  start and end; otherwise it returns \<open>length stops + 1\<close> points, the \<open>i\<close>-th being the
  coordinate-wise midpoint of the \<open>i\<close>-th consecutive pair of the walk
  start, stop 1, ..., stop n, end.
\<close>

theorem buildSegmentsFromStops_midpoints:
  "(stops = [] \<longrightarrow>
      buildSegmentsFromStops a b c d stops = [((a + c) / 2, (b + d) / 2)])
   \<and> (stops \<noteq> [] \<longrightarrow>
        length (buildSegmentsFromStops a b c d stops) = length stops + 1
        \<and> (\<forall>i<length stops + 1.
              buildSegmentsFromStops a b c d stops ! i
                = pairMidpoint (walk a b c d stops ! i) (walk a b c d stops ! Suc i)))"
proof (intro conjI impI allI)
  assume "stops = []"
  then show "buildSegmentsFromStops a b c d stops = [((a + c) / 2, (b + d) / 2)]"
    by (simp add: buildSegmentsFromStops_def midpoint2_def)
next
  show "length (buildSegmentsFromStops a b c d stops) = length stops + 1"
    unfolding buildSegments_eq by simp
next
  fix i
  assume "i < length stops + 1"
  then show "buildSegmentsFromStops a b c d stops ! i
               = pairMidpoint (walk a b c d stops ! i) (walk a b c d stops ! Suc i)"
    unfolding buildSegments_eq by (simp del: upt_Suc)
qed

theorem buildSegmentsFromStops_midpoints_witness:
  "[stopA, stopB] \<noteq> []
   \<and> length (buildSegmentsFromStops 0 0 3 3 [stopA, stopB]) = 3
   \<and> buildSegmentsFromStops 0 0 3 3 [stopA, stopB] ! 0 = (1 / 2, 1 / 2)
   \<and> buildSegmentsFromStops 0 0 3 3 [stopA, stopB] ! 1 = (3 / 2, 3 / 2)
   \<and> buildSegmentsFromStops 0 0 3 3 [stopA, stopB] ! 2 = (5 / 2, 5 / 2)
   \<and> buildSegmentsFromStops 0 0 3 3 [] = [(3 / 2, 3 / 2)]"
  using buildSegmentsFromStops_midpoints [of "[stopA, stopB]" 0 0 3 3]
        buildSegmentsFromStops_midpoints [of "[]" 0 0 3 3]
  by (simp add: walk_def pairMidpoint_def stopCoord_def stopA_def stopB_def mkStop_def
      nth_Cons' less_Suc_eq all_conj_distrib eval_nat_numeral)

section \<open>Properties of allInterleavings\<close>

lemma gen_genF:
  "gen groups maxN st
     = map_option (\<lambda>r. st\<lparr>st_result := r\<rparr>)
         (genF groups maxN (st_indices st) (st_current st) (st_result st))"
  "genLoop groups maxN g st
     = map_option (\<lambda>r. st\<lparr>st_result := r\<rparr>)
         (genLoopF groups maxN g (st_indices st) (st_current st) (st_result st))"
proof (induction groups maxN st and groups maxN g st rule: gen_genLoop.induct)
  case (1 groups maxN st)
  show ?case
  proof (cases "maxN \<le> int (length (st_result st))")
    case True
    then show ?thesis by (subst gen.simps, subst genF.simps) simp
  next
    case False
    show ?thesis
    proof (cases "doneLoop groups (st_indices st) 0")
      case None
      with False show ?thesis by (subst gen.simps, subst genF.simps) simp
    next
      case (Some b)
      show ?thesis
      proof (cases b)
        case True
        with False Some show ?thesis by (subst gen.simps, subst genF.simps) simp
      next
        case notdone: False
        have "gen groups maxN st = genLoop groups maxN 0 st"
          using False Some notdone by (subst gen.simps) simp
        moreover have "genF groups maxN (st_indices st) (st_current st) (st_result st)
              = genLoopF groups maxN 0 (st_indices st) (st_current st) (st_result st)"
          using False Some notdone by (subst genF.simps) simp
        moreover have "genLoop groups maxN 0 st
              = map_option (\<lambda>r. st\<lparr>st_result := r\<rparr>)
                  (genLoopF groups maxN 0 (st_indices st) (st_current st) (st_result st))"
          using False Some notdone by (intro "1.IH") simp_all
        ultimately show ?thesis by simp
      qed
    qed
  qed
next
  case (2 groups maxN g st)
  let ?ix = "st_indices st" and ?cur = "st_current st" and ?res = "st_result st"
  show ?case
  proof (cases "g < length groups \<and> g < length ?ix")
    case False
    then show ?thesis by (subst genLoop.simps, subst genLoopF.simps) auto
  next
    case True
    show ?thesis
    proof (cases "?ix ! g < length (groups ! g)")
      case False
      have "genLoop groups maxN g st = genLoop groups maxN (g + 1) st"
        using True False by (subst genLoop.simps) simp
      moreover have "genLoopF groups maxN g ?ix ?cur ?res = genLoopF groups maxN (g + 1) ?ix ?cur ?res"
        using True False by (subst genLoopF.simps) simp
      moreover have "genLoop groups maxN (g + 1) st
              = map_option (\<lambda>r. st\<lparr>st_result := r\<rparr>) (genLoopF groups maxN (g + 1) ?ix ?cur ?res)"
        using True False by (intro "2.IH"(3)) simp_all
      ultimately show ?thesis by simp
    next
      case adv: True
      let ?x = "groups ! g ! (?ix ! g)"
      let ?up = "st\<lparr>st_current := ?cur @ [?x], st_indices := ?ix[g := ?ix ! g + 1]\<rparr>"
      have ih1: "gen groups maxN ?up
                   = map_option (\<lambda>r. ?up\<lparr>st_result := r\<rparr>)
                       (genF groups maxN (?ix[g := ?ix ! g + 1]) (?cur @ [?x]) ?res)"
        using "2.IH"(1) [OF _ _ adv] True by simp
      show ?thesis
      proof (cases "genF groups maxN (?ix[g := ?ix ! g + 1]) (?cur @ [?x]) ?res")
        case None
        have "genLoop groups maxN g st = None"
          using True adv ih1 None by (subst genLoop.simps) simp
        moreover have "genLoopF groups maxN g ?ix ?cur ?res = None"
          using True adv None by (subst genLoopF.simps) simp
        ultimately show ?thesis by simp
      next
        case (Some r)
        let ?st1 = "?up\<lparr>st_result := r\<rparr>"
        have s1: "gen groups maxN ?up = Some ?st1" using ih1 Some by simp
        have undo: "?st1\<lparr>st_indices := (st_indices ?st1)[g := st_indices ?st1 ! g - 1],
                          st_current := butlast (st_current ?st1)\<rparr> = st\<lparr>st_result := r\<rparr>"
          using True by (simp add: list_update_same_conv)
        have "genLoop groups maxN g st = genLoop groups maxN (g + 1) (st\<lparr>st_result := r\<rparr>)"
          using True adv s1 undo by (subst genLoop.simps) simp
        moreover have "genLoopF groups maxN g ?ix ?cur ?res = genLoopF groups maxN (g + 1) ?ix ?cur r"
          using True adv Some by (subst genLoopF.simps) simp
        moreover have "genLoop groups maxN (g + 1) (st\<lparr>st_result := r\<rparr>)
              = map_option (\<lambda>r'. st\<lparr>st_result := r'\<rparr>) (genLoopF groups maxN (g + 1) ?ix ?cur r)"
          using "2.IH"(2) [OF _ _ adv s1] True undo by simp
        ultimately show ?thesis by simp
      qed
    qed
  qed
qed

lemma cursorsOk_D:
  "cursorsOk groups indices \<Longrightarrow> length indices = length groups"
  "cursorsOk groups indices \<Longrightarrow> g < length groups \<Longrightarrow> indices ! g \<le> length (groups ! g)"
  by (auto simp: cursorsOk_def list_all_iff)

lemma cursorsOk_step:
  assumes "cursorsOk groups indices" "g < length groups" "indices ! g < length (groups ! g)"
  shows "cursorsOk groups (indices[g := indices ! g + 1])"
  using assms by (auto simp: cursorsOk_def list_all_iff nth_list_update)

lemma cursorsOk_start: "cursorsOk groups (replicate (length groups) 0)"
  by (simp add: cursorsOk_def list_all_iff)

lemma suffixes_length [simp]: "length (suffixes groups indices) = length groups"
  by (simp add: suffixes_def)

lemma suffixes_nth:
  "g < length groups \<Longrightarrow> suffixes groups indices ! g = drop (indices ! g) (groups ! g)"
  by (simp add: suffixes_def)

lemma suffixes_start: "suffixes groups (replicate (length groups) 0) = groups"
  by (rule nth_equalityI) (simp_all add: suffixes_nth)

lemma suffixes_step:
  assumes "g < length groups" "g < length indices"
  shows "(suffixes groups indices)[g := tl (suffixes groups indices ! g)]
           = suffixes groups (indices[g := indices ! g + 1])"
proof (rule nth_equalityI)
  show "length ((suffixes groups indices)[g := tl (suffixes groups indices ! g)])
          = length (suffixes groups (indices[g := indices ! g + 1]))"
    by simp
next
  fix j
  assume "j < length ((suffixes groups indices)[g := tl (suffixes groups indices ! g)])"
  then have j: "j < length groups" by simp
  show "(suffixes groups indices)[g := tl (suffixes groups indices ! g)] ! j
          = suffixes groups (indices[g := indices ! g + 1]) ! j"
  proof (cases "j = g")
    case True
    then show ?thesis
      using assms by (simp add: suffixes_nth tl_drop drop_Suc)
  next
    case False
    then show ?thesis
      using assms j by (simp add: suffixes_nth)
  qed
qed

lemma doneLoop_Some:
  "length groups \<le> length indices \<Longrightarrow>
   doneLoop groups indices g
     = Some (list_all (\<lambda>j. \<not> indices ! j < length (groups ! j)) [g..<length groups])"
proof (induction groups indices g rule: doneLoop.induct)
  case (1 groups indices g)
  show ?case
  proof (cases "g < length groups")
    case True
    then have gi: "g < length indices" using "1.prems" by simp
    show ?thesis
    proof (cases "indices ! g < length (groups ! g)")
      case t: True
      then show ?thesis
        using True gi by (subst doneLoop.simps) (simp add: upt_conv_Cons)
    next
      case False
      then show ?thesis
        using True gi "1.IH" "1.prems" by (subst doneLoop.simps) (simp add: upt_conv_Cons)
    qed
  next
    case False
    then show ?thesis by (subst doneLoop.simps) simp
  qed
qed

lemma isMerge_done:
  assumes "cursorsOk groups indices"
    and "list_all (\<lambda>j. \<not> indices ! j < length (groups ! j)) [0..<length groups]"
  shows "isMerge (suffixes groups indices) []"
  using assms by (auto simp: list_all_iff suffixes_def)

lemma isMerge_step:
  assumes "cursorsOk groups indices" "g < length groups" "indices ! g < length (groups ! g)"
    and "isMerge (suffixes groups (indices[g := indices ! g + 1])) tail"
  shows "isMerge (suffixes groups indices) (groups ! g ! (indices ! g) # tail)"
proof -
  have gi: "g < length indices" using assms(1,2) by (simp add: cursorsOk_D)
  have ne: "suffixes groups indices ! g \<noteq> []"
    using assms(2,3) by (simp add: suffixes_nth)
  have hd: "hd (suffixes groups indices ! g) = groups ! g ! (indices ! g)"
    using assms(2,3) by (simp add: suffixes_nth hd_drop_conv_nth)
  have "isMerge ((suffixes groups indices)[g := tl (suffixes groups indices ! g)]) tail"
    using assms(4) suffixes_step [OF assms(2) gi] by simp
  with ne hd assms(2) show ?thesis
    by (auto simp: list_ex_iff intro!: bexI [of _ g])
qed


lemma genPost_refl: "genPost groups maxN indices current result (Some result)"
  unfolding genPost_def by (rule exI [of _ "[]"]) simp

lemma genPost_one:
  assumes "int (length result) < maxN" "isMerge (suffixes groups indices) []"
  shows "genPost groups maxN indices current result (Some (result @ [current]))"
  unfolding genPost_def using assms by (intro exI [of _ "[current]"]) auto

lemma genPost_trans:
  assumes first: "genPost groups maxN indices' (current @ [x]) result (Some result')"
    and lift: "\<And>tail. isMerge (suffixes groups indices') tail
                 \<Longrightarrow> isMerge (suffixes groups indices) (x # tail)"
    and second: "genPost groups maxN indices current result' r"
  shows "genPost groups maxN indices current result r"
proof -
  from first obtain added1 where a1: "result' = result @ added1"
      "\<forall>ordering\<in>set added1. \<exists>tail. ordering = (current @ [x]) @ tail
          \<and> isMerge (suffixes groups indices') tail"
      "int (length (result @ added1)) \<le> max maxN (int (length result))"
    unfolding genPost_def by auto
  from second obtain added2 where a2: "r = Some (result' @ added2)"
      "\<forall>ordering\<in>set added2. \<exists>tail. ordering = current @ tail
          \<and> isMerge (suffixes groups indices) tail"
      "int (length (result' @ added2)) \<le> max maxN (int (length result'))"
    unfolding genPost_def by auto
  have m1: "\<forall>ordering\<in>set added1. \<exists>tail. ordering = current @ tail
          \<and> isMerge (suffixes groups indices) tail"
  proof
    fix ordering assume "ordering \<in> set added1"
    with a1(2) obtain tail where t: "ordering = (current @ [x]) @ tail"
        "isMerge (suffixes groups indices') tail" by blast
    from lift [OF t(2)] t(1) show "\<exists>tail. ordering = current @ tail
          \<and> isMerge (suffixes groups indices) tail"
      by (intro exI [of _ "x # tail"]) simp
  qed
  have "r = Some (result @ (added1 @ added2))" using a1(1) a2(1) by simp
  moreover have "\<forall>ordering\<in>set (added1 @ added2). \<exists>tail. ordering = current @ tail
          \<and> isMerge (suffixes groups indices) tail"
    using m1 a2(2) by auto
  moreover have "int (length (result @ (added1 @ added2))) \<le> max maxN (int (length result))"
    using a1(1,3) a2(3) by (simp add: max_def split: if_splits)
  ultimately show ?thesis unfolding genPost_def by blast
qed

lemma genF_post:
  "cursorsOk groups indices \<Longrightarrow>
     genPost groups maxN indices current result (genF groups maxN indices current result)"
  "cursorsOk groups indices \<Longrightarrow>
     genPost groups maxN indices current result (genLoopF groups maxN g indices current result)"
proof (induction groups maxN indices current result and groups maxN g indices current result
       rule: genF_genLoopF.induct)
  case (1 groups maxN indices current result)
  note ok = "1.prems"
  have dl: "doneLoop groups indices 0
              = Some (list_all (\<lambda>j. \<not> indices ! j < length (groups ! j)) [0..<length groups])"
    using ok by (intro doneLoop_Some) (simp add: cursorsOk_D)
  show ?case
  proof (cases "maxN \<le> int (length result)")
    case True
    then show ?thesis by (subst genF.simps) (simp add: genPost_refl)
  next
    case False
    show ?thesis
    proof (cases "list_all (\<lambda>j. \<not> indices ! j < length (groups ! j)) [0..<length groups]")
      case all: True
      have "genF groups maxN indices current result = Some (result @ [current])"
        using False dl all by (subst genF.simps) simp
      moreover have "genPost groups maxN indices current result (Some (result @ [current]))"
        using False isMerge_done [OF ok all] by (intro genPost_one) simp_all
      ultimately show ?thesis by simp
    next
      case notall: False
      have "genF groups maxN indices current result = genLoopF groups maxN 0 indices current result"
        using False dl notall by (subst genF.simps) simp
      moreover have "genPost groups maxN indices current result
                       (genLoopF groups maxN 0 indices current result)"
        using False dl notall ok by (intro "1.IH") simp_all
      ultimately show ?thesis by simp
    qed
  qed
next
  case (2 groups maxN g indices current result)
  note ok = "2.prems"
  show ?case
  proof (cases "g < length groups")
    case False
    then show ?thesis by (subst genLoopF.simps) (simp add: genPost_refl)
  next
    case True
    then have gi: "g < length indices" using ok by (simp add: cursorsOk_D)
    show ?thesis
    proof (cases "indices ! g < length (groups ! g)")
      case False
      have "genLoopF groups maxN g indices current result
              = genLoopF groups maxN (g + 1) indices current result"
        using True gi False by (subst genLoopF.simps) simp
      moreover have "genPost groups maxN indices current result
                       (genLoopF groups maxN (g + 1) indices current result)"
        using True gi False ok by (intro "2.IH"(3)) simp_all
      ultimately show ?thesis by simp
    next
      case adv: True
      let ?ix = "indices[g := indices ! g + 1]"
      let ?x = "groups ! g ! (indices ! g)"
      have ok': "cursorsOk groups ?ix" using ok True adv by (rule cursorsOk_step)
      have p1: "genPost groups maxN ?ix (current @ [?x]) result
                  (genF groups maxN ?ix (current @ [?x]) result)"
        using True gi adv ok' by (intro "2.IH"(1)) simp_all
      then obtain result' where r': "genF groups maxN ?ix (current @ [?x]) result = Some result'"
        unfolding genPost_def by blast
      have p2: "genPost groups maxN indices current result'
                  (genLoopF groups maxN (g + 1) indices current result')"
        using True gi adv r' ok by (intro "2.IH"(2)) simp_all
      have eq: "genLoopF groups maxN g indices current result
                  = genLoopF groups maxN (g + 1) indices current result'"
        using True gi adv r' by (subst genLoopF.simps) simp
      show ?thesis
        unfolding eq
      proof (rule genPost_trans [where indices' = ?ix and x = ?x and result' = result'])
        show "genPost groups maxN ?ix (current @ [?x]) result (Some result')"
          using p1 r' by simp
        show "isMerge (suffixes groups indices) (?x # tail)"
          if "isMerge (suffixes groups ?ix) tail" for tail
          using ok True adv that by (rule isMerge_step)
        show "genPost groups maxN indices current result'
                (genLoopF groups maxN (g + 1) indices current result')"
          by (rule p2)
      qed
    qed
  qed
qed


lemma genPost_grows:
  assumes "genPost groups maxN indices current result r"
  obtains r' where "r = Some r'" "length result \<le> length r'"
  using assms unfolding genPost_def by auto

lemma genF_progress:
  "cursorsOk groups indices \<Longrightarrow> int (length result) < maxN \<Longrightarrow>
     \<exists>r. genF groups maxN indices current result = Some r \<and> length result < length r"
  "cursorsOk groups indices \<Longrightarrow> int (length result) < maxN \<Longrightarrow>
     \<not> list_all (\<lambda>j. \<not> indices ! j < length (groups ! j)) [g..<length groups] \<Longrightarrow>
     \<exists>r. genLoopF groups maxN g indices current result = Some r \<and> length result < length r"
proof (induction groups maxN indices current result and groups maxN g indices current result
       rule: genF_genLoopF.induct)
  case (1 groups maxN indices current result)
  note ok = "1.prems"(1) and room = "1.prems"(2)
  have dl: "doneLoop groups indices 0
              = Some (list_all (\<lambda>j. \<not> indices ! j < length (groups ! j)) [0..<length groups])"
    using ok by (intro doneLoop_Some) (simp add: cursorsOk_D)
  show ?case
  proof (cases "list_all (\<lambda>j. \<not> indices ! j < length (groups ! j)) [0..<length groups]")
    case True
    then show ?thesis using room dl by (subst genF.simps) simp
  next
    case False
    have "genF groups maxN indices current result = genLoopF groups maxN 0 indices current result"
      using room dl False by (subst genF.simps) simp
    moreover have "\<exists>r. genLoopF groups maxN 0 indices current result = Some r
                       \<and> length result < length r"
      using room dl False ok by (intro "1.IH") simp_all
    ultimately show ?thesis by simp
  qed
next
  case (2 groups maxN g indices current result)
  note ok = "2.prems"(1) and room = "2.prems"(2) and todo = "2.prems"(3)
  have True: "g < length groups"
  proof (rule ccontr)
    assume "\<not> g < length groups"
    then have "[g..<length groups] = []" by simp
    with todo show False by simp
  qed
  then have gi: "g < length indices" using ok by (simp add: cursorsOk_D)
  show ?case
  proof (cases "indices ! g < length (groups ! g)")
    case False
    have later: "\<not> list_all (\<lambda>j. \<not> indices ! j < length (groups ! j)) [g + 1..<length groups]"
      using todo True False by (simp add: upt_conv_Cons)
    have "genLoopF groups maxN g indices current result
            = genLoopF groups maxN (g + 1) indices current result"
      using True gi False by (subst genLoopF.simps) simp
    moreover have "\<exists>r. genLoopF groups maxN (g + 1) indices current result = Some r
                       \<and> length result < length r"
      using True gi False ok room later by (intro "2.IH"(3)) simp_all
    ultimately show ?thesis by simp
  next
    case adv: True
    let ?ix = "indices[g := indices ! g + 1]"
    let ?x = "groups ! g ! (indices ! g)"
    have ok': "cursorsOk groups ?ix" using ok True adv by (rule cursorsOk_step)
    have "\<exists>r. genF groups maxN ?ix (current @ [?x]) result = Some r \<and> length result < length r"
      using True gi adv ok' room by (intro "2.IH"(1)) simp_all
    then obtain result' where r': "genF groups maxN ?ix (current @ [?x]) result = Some result'"
        "length result < length result'"
      by blast
    have eq: "genLoopF groups maxN g indices current result
                = genLoopF groups maxN (g + 1) indices current result'"
      using True gi adv r'(1) by (subst genLoopF.simps) simp
    from genF_post(2) [OF ok, where maxN = maxN and result = result' and g = "g + 1"
        and current = current]
    obtain r where "genLoopF groups maxN (g + 1) indices current result' = Some r"
        "length result' \<le> length r"
      by (rule genPost_grows)
    with eq r'(2) show ?thesis by simp
  qed
qed

lemma gen_mset_aux:
  "i < length gs \<Longrightarrow> gs ! i \<noteq> [] \<Longrightarrow>
   mset (concat gs) = add_mset (hd (gs ! i)) (mset (concat (gs[i := tl (gs ! i)])))"
proof (induction gs arbitrary: i)
  case Nil
  then show ?case by simp
next
  case (Cons g gs)
  show ?case
  proof (cases i)
    case 0
    with Cons.prems show ?thesis by (cases g) simp_all
  next
    case (Suc j)
    with Cons show ?thesis by simp
  qed
qed

lemma isMerge_mset: "isMerge gs xs \<Longrightarrow> mset xs = mset (concat gs)"
proof (induction xs arbitrary: gs)
  case Nil
  then have "\<forall>g\<in>set gs. g = []" by (simp add: list_all_iff)
  then have "concat gs = []" by simp
  then show ?case by simp
next
  case (Cons x xs)
  then obtain i where i: "i < length gs" "gs ! i \<noteq> []" "hd (gs ! i) = x"
      "isMerge (gs[i := tl (gs ! i)]) xs"
    by (auto simp: list_ex_iff)
  from Cons.IH [OF i(4)] gen_mset_aux [OF i(1,2)] i(3) show ?case by simp
qed

lemma isMerge_subseq: "isMerge gs xs \<Longrightarrow> g \<in> set gs \<Longrightarrow> subseq g xs"
proof (induction xs arbitrary: gs g)
  case Nil
  then show ?case by (auto simp: list_all_iff)
next
  case (Cons x xs)
  then obtain i where i: "i < length gs" "gs ! i \<noteq> []" "hd (gs ! i) = x"
      "isMerge (gs[i := tl (gs ! i)]) xs"
    by (auto simp: list_ex_iff)
  from Cons.prems(2) obtain j where j: "j < length gs" "gs ! j = g"
    by (auto simp: in_set_conv_nth)
  show ?case
  proof (cases "j = i")
    case True
    have "tl g \<in> set (gs[i := tl (gs ! i)])"
      using i(1) j True by (auto simp: in_set_conv_nth intro!: exI [of _ i])
    then have "subseq (tl g) xs" by (rule Cons.IH [OF i(4)])
    moreover have "g = x # tl g" using i(2,3) j True by (cases g) auto
    ultimately show ?thesis by (metis subseq_Cons2)
  next
    case False
    have "g \<in> set (gs[i := tl (gs ! i)])"
      using j False i(1) by (auto simp: in_set_conv_nth intro!: exI [of _ j])
    then have "subseq g xs" by (rule Cons.IH [OF i(4)])
    then show ?thesis by (rule list_emb_Cons)
  qed
qed

lemma isMerge_single: "isMerge [g] g"
  by (induction g) simp_all


lemma allInterleavings_many:
  assumes "2 \<le> length groups"
  shows "allInterleavings groups maxN = genF groups maxN (replicate (length groups) 0) [] []"
proof -
  let ?st = "\<lparr>st_result = [], st_indices = replicate (length groups) 0, st_current = []\<rparr>"
  from assms have "length groups \<noteq> 0" "length groups \<noteq> 1" by auto
  then have "allInterleavings groups maxN = map_option st_result (gen groups maxN ?st)"
    by (simp only: allInterleavings_def if_False)
  also have "\<dots> = genF groups maxN (replicate (length groups) 0) [] []"
    by (simp add: gen_genF(1) option.map_comp comp_def option.map_ident)
  finally show ?thesis .
qed

lemma allInterleavings_gen:
  assumes "2 \<le> length groups"
  shows "\<exists>orderings. allInterleavings groups maxN = Some orderings
           \<and> (\<forall>ordered\<in>set orderings. isMerge groups ordered)
           \<and> int (length orderings) \<le> max maxN 0"
proof -
  let ?start = "replicate (length groups) (0::nat)"
  have "genPost groups maxN ?start [] [] (genF groups maxN ?start [] [])"
    by (rule genF_post(1) [OF cursorsOk_start])
  then obtain added where a: "genF groups maxN ?start [] [] = Some added"
      "\<forall>ordered\<in>set added. isMerge (suffixes groups ?start) ordered"
      "int (length added) \<le> max maxN 0"
    unfolding genPost_def by auto
  have "allInterleavings groups maxN = Some added"
    using a(1) by (simp only: allInterleavings_many [OF assms])
  with a(2,3) show ?thesis by (simp add: suffixes_start)
qed

lemma allInterleavings_cases:
  "length groups = 0 \<Longrightarrow> allInterleavings groups maxN = Some []"
  "length groups = 1 \<Longrightarrow> allInterleavings groups maxN = Some [groups ! 0]"
  by (simp_all add: allInterleavings_def)

text \<open>
  Claim C3.  Every ordering returned by \<^verbatim>\<open>allInterleavings\<close> is an order-preserving merge
  of the groups: it holds exactly the stops of all groups, each as often as the groups do,
  and every group is a subsequence of it, so the group's stops keep their relative order.
\<close>

theorem allInterleavings_merges:
  assumes "allInterleavings groups maxN = Some orderings" "ordered \<in> set orderings"
  shows "isMerge groups ordered \<and> mset ordered = mset (concat groups)
           \<and> (\<forall>g\<in>set groups. subseq g ordered)"
proof -
  have m: "isMerge groups ordered"
  proof -
    consider "length groups = 0" | "length groups = 1" | "2 \<le> length groups" by linarith
    then show ?thesis
    proof cases
      case 1
      with assms show ?thesis by (simp add: allInterleavings_cases)
    next
      case 2
      then obtain g where g: "groups = [g]" by (cases groups) auto
      have "allInterleavings groups maxN = Some [g]"
        using allInterleavings_cases(2) [OF 2, of maxN] g by simp
      with assms have "ordered = g" by auto
      with g show ?thesis by (simp only: isMerge_single)
    next
      case 3
      from allInterleavings_gen [OF 3, of maxN] assms show ?thesis by auto
    qed
  qed
  from m isMerge_mset [OF m] isMerge_subseq [OF m] show ?thesis by blast
qed

lemma ex_interleavings:
  "allInterleavings [[stopA, stopB], [stopC]] 10
     = Some [[stopA, stopB, stopC], [stopA, stopC, stopB], [stopC, stopA, stopB]]"
  by (simp add: allInterleavings_many genF.simps genLoopF.simps doneLoop.simps)

theorem allInterleavings_merges_witness:
  "allInterleavings [[stopA, stopB], [stopC]] 10
     = Some [[stopA, stopB, stopC], [stopA, stopC, stopB], [stopC, stopA, stopB]]
   \<and> [stopA, stopC, stopB]
       \<in> set [[stopA, stopB, stopC], [stopA, stopC, stopB], [stopC, stopA, stopB]]
   \<and> isMerge [[stopA, stopB], [stopC]] [stopA, stopC, stopB]
   \<and> mset [stopA, stopC, stopB] = mset (concat [[stopA, stopB], [stopC]])
   \<and> subseq [stopA, stopB] [stopA, stopC, stopB]
   \<and> subseq [stopC] [stopA, stopC, stopB]"
  using allInterleavings_merges [OF ex_interleavings, of "[stopA, stopC, stopB]"]
        ex_interleavings
  by simp

text \<open>
  Claim C4, amended.  \<^verbatim>\<open>allInterleavings\<close> never panics.  It returns at most \<open>maxN\<close>
  orderings when \<open>maxN\<close> is at least 1, and also when \<open>maxN\<close> is 0 and the number of groups
  is not 1.  One group gives exactly that group, whatever the cap; no group gives no
  ordering.
\<close>

theorem allInterleavings_cap:
  "\<exists>orderings. allInterleavings groups maxN = Some orderings
     \<and> (1 \<le> maxN \<or> (0 \<le> maxN \<and> length groups \<noteq> 1) \<longrightarrow> int (length orderings) \<le> maxN)
     \<and> (length groups = 1 \<longrightarrow> orderings = [groups ! 0])
     \<and> (length groups = 0 \<longrightarrow> orderings = [])"
proof -
  consider "length groups = 0" | "length groups = 1" | "2 \<le> length groups" by linarith
  then show ?thesis
  proof cases
    case 1
    then show ?thesis by (auto simp: allInterleavings_cases)
  next
    case 2
    then show ?thesis by (auto simp: allInterleavings_cases)
  next
    case 3
    from allInterleavings_gen [OF 3, of maxN] 3 show ?thesis by (auto simp: max_def split: if_splits)
  qed
qed

lemma ex_capped:
  "allInterleavings [[stopA], [stopB], [stopC]] 2
     = Some [[stopA, stopB, stopC], [stopA, stopC, stopB]]"
  by (simp add: allInterleavings_many genF.simps genLoopF.simps doneLoop.simps)

theorem allInterleavings_cap_witness:
  "(1::int) \<le> 2
   \<and> allInterleavings [[stopA], [stopB], [stopC]] 2
       = Some [[stopA, stopB, stopC], [stopA, stopC, stopB]]
   \<and> int (length [[stopA, stopB, stopC], [stopA, stopC, stopB]]) \<le> 2
   \<and> allInterleavings [[stopA, stopB]] 2 = Some [[stopA, stopB]]
   \<and> allInterleavings [] 2 = Some []"
  using allInterleavings_cap [of "[[stopA], [stopB], [stopC]]" 2]
        allInterleavings_cap [of "[[stopA, stopB]]" 2]
        allInterleavings_cap [of "[]" 2] ex_capped
  by simp

text \<open>
  The claim as stated, for every cap: with the cap 0 and one group the single-group return
  comes before the cap is looked at, and one ordering is more than 0.
\<close>

theorem allInterleavings_cap_counterexample:
  "allInterleavings [[stopA]] 0 = Some [[stopA]] \<and> \<not> int (length [[stopA]]) \<le> 0"
  by (simp add: allInterleavings_def)

lemma allInterleavings_nonempty:
  assumes "groups \<noteq> []" "0 < maxN"
  shows "\<exists>orderings. allInterleavings groups maxN = Some orderings \<and> orderings \<noteq> []"
proof -
  consider "length groups = 1" | "2 \<le> length groups"
    using assms(1) by (cases groups) (auto simp: Suc_le_eq)
  then show ?thesis
  proof cases
    case 1
    then show ?thesis by (simp add: allInterleavings_cases)
  next
    case 2
    let ?start = "replicate (length groups) (0::nat)"
    from genF_progress(1) [OF cursorsOk_start, of "[]" maxN groups "[]"] assms(2)
    obtain r where "genF groups maxN ?start [] [] = Some r" "0 < length r" by auto
    then show ?thesis by (auto simp only: allInterleavings_many [OF 2] length_greater_0_conv)
  qed
qed


section \<open>Properties of Haversine\<close>

lemma haversine_a_sym: "haversine_a lat1 lng1 lat2 lng2 = haversine_a lat2 lng2 lat1 lng1"
proof -
  have d1: "(lat2 - lat1) * pi / 180 / 2 = - ((lat1 - lat2) * pi / 180 / 2)"
    by (simp add: field_simps)
  have d2: "(lng2 - lng1) * pi / 180 / 2 = - ((lng1 - lng2) * pi / 180 / 2)"
    by (simp add: field_simps)
  show ?thesis
    unfolding haversine_a_def Let_def d1 d2 sin_minus by (simp add: mult.commute)
qed

text \<open>
  Claim C8.  The Haversine distance is symmetric in its two points.
\<close>

theorem Haversine_symmetric:
  "Haversine lat1 lng1 lat2 lng2 = Haversine lat2 lng2 lat1 lng1"
  unfolding Haversine_def by (simp only: haversine_a_sym [of lat1 lng1 lat2 lng2])



text \<open>
  The quantity under the square roots lies between 0 and 1, so neither square root of
  \<^verbatim>\<open>Haversine\<close> is taken of a negative number.
\<close>

lemma haversine_a_range:
  "0 \<le> haversine_a lat1 lng1 lat2 lng2 \<and> haversine_a lat1 lng1 lat2 lng2 \<le> 1"
proof -
  define p where "p = lat1 * pi / 180"
  define q where "q = lat2 * pi / 180"
  define u where "u = (q - p) / 2"
  define s where "s = sin ((lng2 - lng1) * pi / 180 / 2) * sin ((lng2 - lng1) * pi / 180 / 2)"
  define t where "t = sin u * sin u"
  have s: "0 \<le> s" "s \<le> 1"
    unfolding s_def using abs_sin_le_one [of "(lng2 - lng1) * pi / 180 / 2"]
    by (simp_all add: abs_le_square_iff [symmetric] power2_eq_square [symmetric] abs_square_le_1)
  have t: "0 \<le> t" "t \<le> 1"
    unfolding t_def using abs_sin_le_one [of u]
    by (simp_all add: power2_eq_square [symmetric] abs_square_le_1)
  have u: "(lat2 - lat1) * pi / 180 / 2 = u"
    unfolding u_def p_def q_def by (simp add: diff_divide_distrib left_diff_distrib)
  have cc: "cos p * cos q = (cos (q - p) + cos (p + q)) / 2"
    by (simp add: cos_diff cos_add)
  have c2: "cos (q - p) = 1 - 2 * t"
  proof -
    have "q - p = 2 * u" unfolding u_def by simp
    then show ?thesis unfolding t_def by (simp add: cos_double_sin power2_eq_square)
  qed
  have a: "haversine_a lat1 lng1 lat2 lng2 = t + cos p * cos q * s"
    unfolding haversine_a_def Let_def u t_def s_def p_def q_def by (simp add: algebra_simps)
  have a': "haversine_a lat1 lng1 lat2 lng2 = t * (1 - s) + s * ((1 + cos (p + q)) / 2)"
    unfolding a cc c2 by (simp add: field_simps)
  have c: "0 \<le> (1 + cos (p + q)) / 2" "(1 + cos (p + q)) / 2 \<le> 1"
  proof -
    define c where "c = cos (p + q)"
    have "- 1 \<le> c" "c \<le> 1"
      unfolding c_def by (rule cos_ge_minus_one, rule cos_le_one)
    then have "0 \<le> (1 + c) / 2" "(1 + c) / 2 \<le> 1" by simp_all
    then show "0 \<le> (1 + cos (p + q)) / 2" "(1 + cos (p + q)) / 2 \<le> 1"
      unfolding c_def .
  qed
  have lo: "0 \<le> t * (1 - s) + s * ((1 + cos (p + q)) / 2)"
    using s t c by (intro add_nonneg_nonneg mult_nonneg_nonneg) simp_all
  have "t * (1 - s) \<le> 1 * (1 - s)" using t s by (intro mult_right_mono) simp_all
  moreover have "s * ((1 + cos (p + q)) / 2) \<le> s * 1" using s c by (intro mult_left_mono) simp_all
  ultimately have hi: "t * (1 - s) + s * ((1 + cos (p + q)) / 2) \<le> 1" by simp
  from lo hi show ?thesis unfolding a' by simp
qed


theorem Haversine_symmetric_witness:
  "Haversine 40 (- 74) 34 (- 118) = Haversine 34 (- 118) 40 (- 74)"
  by (rule Haversine_symmetric)


section \<open>The sentinel and the minimum loops\<close>












lemma minStopDevLoop_fold:
  "minStopDevLoop rt search orderings m
     = fold min (map (\<lambda>ordered. deviationForStops (StartLat rt) (StartLng rt)
                        (EndLat rt) (EndLng rt) ordered search) orderings) m"
  by (induction orderings arbitrary: m) (simp_all add: Let_def min_def)




section \<open>Properties of CalculateDeviation\<close>

lemma groupStops_obtain:
  obtains groups where "groupStopsByParticipant stops = Some groups"
    "length (concat groups) = length stops" "groups = [] \<longleftrightarrow> stops = []"
proof -
  from groupLoop_total [of Map.empty "[]" stops]
  obtain groups where g: "groupStopsByParticipant stops = Some groups"
      "length (concat groups) = length stops"
    by (auto simp: groupStopsByParticipant_def)
  have "groups = [] \<longleftrightarrow> stops = []"
  proof
    assume "groups = []"
    with g(2) show "stops = []" by simp
  next
    assume "stops = []"
    with g(1) show "groups = []" by (simp add: groupStopsByParticipant_def)
  qed
  with g show ?thesis by (rule that)
qed

lemma orderings_obtain:
  obtains groups orderings where "groupStopsByParticipant stops = Some groups"
    "allInterleavings groups maxInterleavings = Some orderings"
    "orderings = [] \<longleftrightarrow> stops = []"
proof -
  obtain groups where g: "groupStopsByParticipant stops = Some groups"
      "groups = [] \<longleftrightarrow> stops = []"
    by (rule groupStops_obtain)
  show ?thesis
  proof (cases "groups = []")
    case True
    then have "allInterleavings groups maxInterleavings = Some []"
      by (simp add: allInterleavings_cases)
    with g True show ?thesis by (intro that [of groups "[]"]) simp_all
  next
    case False
    from allInterleavings_nonempty [OF False, of maxInterleavings]
    obtain orderings where "allInterleavings groups maxInterleavings = Some orderings"
        "orderings \<noteq> []"
      by (auto simp: maxInterleavings_def)
    with g False show ?thesis by (intro that [of groups orderings]) simp_all
  qed
qed




text \<open>
  Claim C9.  The score depends on the route only through its four coordinates and its stop
  list, and on the search input: two calls that agree on these return the same score.
\<close>

theorem CalculateDeviation_deterministic:
  assumes "StartLat r1 = StartLat r2" "StartLng r1 = StartLng r2"
    and "EndLat r1 = EndLat r2" "EndLng r1 = EndLng r2"
    and "Stops r1 = Stops r2" "s1 = s2"
  shows "CalculateDeviation r1 s1 = CalculateDeviation r2 s2"
proof -
  have b: "baseDev r1 s2 = baseDev r2 s2"
    using assms by (simp add: baseDev_def)
  have m: "minStopDevLoop r1 s2 orderings MaxFloat64 = minStopDevLoop r2 s2 orderings MaxFloat64"
    for orderings
    using assms by (simp add: minStopDevLoop_fold)
  show ?thesis
    using assms b m by (simp add: CalculateDeviation_def split: option.splits)
qed

theorem CalculateDeviation_deterministic_witness:
  "StartLat exRoute = StartLat (exRoute\<lparr>CreatorName := ''other'', MaxDeviation := 7\<rparr>)
   \<and> StartLng exRoute = StartLng (exRoute\<lparr>CreatorName := ''other'', MaxDeviation := 7\<rparr>)
   \<and> EndLat exRoute = EndLat (exRoute\<lparr>CreatorName := ''other'', MaxDeviation := 7\<rparr>)
   \<and> EndLng exRoute = EndLng (exRoute\<lparr>CreatorName := ''other'', MaxDeviation := 7\<rparr>)
   \<and> Stops exRoute = Stops (exRoute\<lparr>CreatorName := ''other'', MaxDeviation := 7\<rparr>)
   \<and> exRoute \<noteq> exRoute\<lparr>CreatorName := ''other'', MaxDeviation := 7\<rparr>
   \<and> CalculateDeviation exRoute exSearch
       = CalculateDeviation (exRoute\<lparr>CreatorName := ''other'', MaxDeviation := 7\<rparr>) exSearch"
proof -
  have "MaxDeviation exRoute \<noteq> MaxDeviation (exRoute\<lparr>CreatorName := ''other'', MaxDeviation := 7\<rparr>)"
    by (simp add: exRoute_def mkRoute_def)
  then have "exRoute \<noteq> exRoute\<lparr>CreatorName := ''other'', MaxDeviation := 7\<rparr>"
    by metis
  then show ?thesis
    using CalculateDeviation_deterministic
          [of exRoute "exRoute\<lparr>CreatorName := ''other'', MaxDeviation := 7\<rparr>" exSearch exSearch]
    by simp
qed



section \<open>Scores of the example routes\<close>

lemma Haversine_self: "Haversine lat lng lat lng = 0"
  by (simp add: Haversine_def haversine_a_def Atan2_def)

lemma Haversine_half_equator: "Haversine 0 0 0 180 = 6371 * pi"
  by (simp add: Haversine_def haversine_a_def Atan2_def earthRadiusKm_def)

lemma CalculateDeviation_total: "\<exists>d. CalculateDeviation rt search = Some d"
proof -
  obtain groups orderings where "groupStopsByParticipant (Stops rt) = Some groups"
    "allInterleavings groups maxInterleavings = Some orderings"
    by (rule orderings_obtain)
  then show ?thesis by (simp add: CalculateDeviation_def)
qed

lemma CalculateDeviation_no_stops:
  assumes "Stops rt = []" "In_Stops search = []"
  shows "CalculateDeviation rt search = Some (baseDev rt search)"
  using assms
  by (simp add: CalculateDeviation_def groupStopsByParticipant_def allInterleavings_def
      deviationForStops_def)

lemma score_near: "CalculateDeviation routeNear plainSearch = Some 0"
  by (simp add: CalculateDeviation_no_stops routeNear_def plainSearch_def mkRoute_def
      baseDev_def Haversine_self)

lemma score_far: "CalculateDeviation routeFar plainSearch = Some (6371 * pi)"
  by (simp add: CalculateDeviation_no_stops routeFar_def plainSearch_def mkRoute_def
      baseDev_def Haversine_self Haversine_half_equator)

lemma score_wide: "CalculateDeviation routeWide plainSearch = Some (6371 * pi)"
  by (simp add: CalculateDeviation_no_stops routeWide_def plainSearch_def mkRoute_def
      baseDev_def Haversine_self Haversine_half_equator)


section \<open>Properties of Search\<close>

lemma searchLoop_post:
  assumes "list_all (scored inp) withDev"
  shows "\<exists>out. searchLoop routes inp withDev = Some out \<and> list_all (scored inp) out"
  using assms
proof (induction routes arbitrary: withDev)
  case Nil
  then show ?case by simp
next
  case (Cons r routes)
  obtain d where d: "CalculateDeviation r inp = Some d"
    using CalculateDeviation_total by blast
  show ?case
  proof (cases "d > MaxDeviation r")
    case True
    with d Cons show ?thesis by simp
  next
    case False
    with d Cons.prems have "list_all (scored inp) (withDev @ [\<lparr>route = r, dev = d\<rparr>])"
      by (simp add: list_all_iff scored_def)
    from Cons.IH [OF this] d False show ?thesis by simp
  qed
qed

lemma insertLeft_set: "set (insertLeft lessFn x ys) = insert x (set ys)"
  by (induction ys) auto

lemma insertLeft_sorted:
  assumes "sorted_wrt (\<lambda>a b. dev a \<ge> dev b) ys"
  shows "sorted_wrt (\<lambda>a b. dev a \<ge> dev b) (insertLeft (\<lambda>a b. dev a < dev b) x ys)"
  using assms
proof (induction ys)
  case Nil
  then show ?case by simp
next
  case (Cons y ys)
  then show ?case by (auto simp: insertLeft_set)
qed

lemma foldl_insertLeft:
  "set (foldl (\<lambda>acc x. insertLeft lessFn x acc) acc0 xs) = set acc0 \<union> set xs"
  by (induction xs arbitrary: acc0) (simp_all add: insertLeft_set)

lemma foldl_insertLeft_sorted:
  assumes "sorted_wrt (\<lambda>a b. dev a \<ge> dev b) acc0"
  shows "sorted_wrt (\<lambda>a b. dev a \<ge> dev b)
           (foldl (\<lambda>acc x. insertLeft (\<lambda>a b. dev a < dev b) x acc) acc0 xs)"
  using assms by (induction xs arbitrary: acc0) (simp_all add: insertLeft_sorted)

lemma sort_Slice_set: "set (sort_Slice xs lessFn) = set xs"
  by (simp add: sort_Slice_def foldl_insertLeft)

lemma sort_Slice_sorted: "sorted (map dev (sort_Slice xs (\<lambda>a b. dev a < dev b)))"
proof -
  have "sorted_wrt (\<lambda>a b. dev a \<ge> dev b)
          (foldl (\<lambda>acc x. insertLeft (\<lambda>a b. dev a < dev b) x acc) [] xs)"
    by (rule foldl_insertLeft_sorted) simp
  then show ?thesis
    by (simp add: sort_Slice_def sorted_wrt_rev sorted_wrt_map rev_map)
qed

lemma Search_post:
  "\<exists>withDev. Search (Inr routes :: 'e + Route list) inp = Some (Inr (map route withDev))
      \<and> list_all (scored inp) withDev \<and> sorted (map dev withDev)"
proof -
  from searchLoop_post [of inp "[]" routes]
  obtain wd where wd: "searchLoop routes inp [] = Some wd" "list_all (scored inp) wd"
    by auto
  let ?s = "sort_Slice wd (\<lambda>a b. dev a < dev b)"
  have "Search (Inr routes :: 'e + Route list) inp = Some (Inr (map route ?s))"
    using wd(1) by (simp add: Search_def)
  moreover have "list_all (scored inp) ?s"
    using wd(2) by (simp add: list_all_iff sort_Slice_set)
  moreover have "sorted (map dev ?s)" by (rule sort_Slice_sorted)
  ultimately show ?thesis by blast
qed

text \<open>
  Claim C1.  \<^verbatim>\<open>Search\<close> returns (it neither fails nor panics once the routes are fetched),
  and no route it returns has a score greater than its \<^verbatim>\<open>MaxDeviation\<close>.
\<close>

theorem Search_within_threshold:
  "\<exists>out. Search (Inr routes :: 'e + Route list) inp = Some (Inr out)
     \<and> (\<forall>r\<in>set out. \<exists>d. CalculateDeviation r inp = Some d \<and> \<not> d > MaxDeviation r)"
proof -
  from Search_post [of routes inp, where ?'e = 'e] obtain withDev where
    w: "Search (Inr routes :: 'e + Route list) inp = Some (Inr (map route withDev))" "list_all (scored inp) withDev"
    by blast
  have "\<forall>r\<in>set (map route withDev). \<exists>d. CalculateDeviation r inp = Some d \<and> \<not> d > MaxDeviation r"
    using w(2) by (auto simp: list_all_iff scored_def)
  with w(1) show ?thesis by blast
qed

text \<open>
  Claim C5.  The routes \<^verbatim>\<open>Search\<close> returns are in non-decreasing order of their scores.
\<close>

theorem Search_sorted:
  "\<exists>out ds. Search (Inr routes :: 'e + Route list) inp = Some (Inr out)
     \<and> map (\<lambda>r. CalculateDeviation r inp) out = map Some ds \<and> sorted ds"
proof -
  from Search_post [of routes inp, where ?'e = 'e] obtain withDev where
    w: "Search (Inr routes :: 'e + Route list) inp = Some (Inr (map route withDev))" "list_all (scored inp) withDev"
       "sorted (map dev withDev)"
    by blast
  have "map (\<lambda>r. CalculateDeviation r inp) (map route withDev) = map Some (map dev withDev)"
    using w(2) by (simp add: list_all_iff scored_def)
  with w(1,3) show ?thesis by blast
qed

lemma pi_bounds_6371: "50 < 6371 * pi" "6371 * pi \<le> 30000"
  using pi_ge_two pi_less_4 by simp_all

lemma ex_search:
  "Search (Inr [routeWide, routeFar, routeNear]) plainSearch = Some (Inr [routeNear, routeWide])"
proof -
  have gt: "0 < 6371 * pi" using pi_gt_zero by simp
  have m: "MaxDeviation routeWide = 30000" "MaxDeviation routeFar = 50"
    "MaxDeviation routeNear = 50"
    by (simp_all add: routeWide_def routeFar_def routeNear_def mkRoute_def)
  show ?thesis
    using pi_bounds_6371 gt
    by (simp add: Search_def score_near score_far score_wide m sort_Slice_def)
qed


theorem Search_within_threshold_witness:
  "Search (Inr [routeWide, routeFar, routeNear] :: unit + Route list) plainSearch
     = Some (Inr [routeNear, routeWide])
   \<and> CalculateDeviation routeNear plainSearch = Some 0
   \<and> \<not> 0 > MaxDeviation routeNear
   \<and> CalculateDeviation routeWide plainSearch = Some (6371 * pi)
   \<and> \<not> 6371 * pi > MaxDeviation routeWide
   \<and> CalculateDeviation routeFar plainSearch = Some (6371 * pi)
   \<and> 6371 * pi > MaxDeviation routeFar"
  using Search_within_threshold [of "[routeWide, routeFar, routeNear]" plainSearch,
          where ?'e = unit]
        ex_search score_near score_far score_wide pi_bounds_6371
  by (simp add: routeWide_def routeFar_def routeNear_def mkRoute_def)

theorem Search_sorted_witness:
  "Search (Inr [routeWide, routeFar, routeNear] :: unit + Route list) plainSearch
     = Some (Inr [routeNear, routeWide])
   \<and> map (\<lambda>r. CalculateDeviation r plainSearch) [routeNear, routeWide]
       = map Some [0, 6371 * pi]
   \<and> sorted [0, 6371 * pi]"
  using Search_sorted [of "[routeWide, routeFar, routeNear]" plainSearch, where ?'e = unit]
        ex_search score_near score_wide
  by simp

text \<open>
  The older \<^verbatim>\<open>Search\<close> returns every fetched route: it has no threshold to apply.
\<close>

lemma scoreLoop_post:
  "\<exists>out. scoreLoop routes inp withDev = Some out \<and> map route out = map route withDev @ routes"
proof (induction routes arbitrary: withDev)
  case Nil
  then show ?case by simp
next
  case (Cons r routes)
  obtain d where d: "CalculateDeviation r inp = Some d"
    using CalculateDeviation_total by blast
  from Cons [of "withDev @ [\<lparr>route = r, dev = d\<rparr>]"] d show ?case by simp
qed

lemma foldl_insertLeft_mset:
  "mset (foldl (\<lambda>acc x. insertLeft lessFn x acc) acc0 xs) = mset acc0 + mset xs"
proof (induction xs arbitrary: acc0)
  case Nil
  then show ?case by simp
next
  case (Cons x xs)
  have "mset (insertLeft lessFn x acc0) = add_mset x (mset acc0)"
    by (induction acc0) simp_all
  with Cons show ?case by simp
qed

lemma Search_unfiltered_keeps_all:
  "\<exists>out. Search_unfiltered (Inr routes :: 'e + Route list) inp = Some (Inr out)
     \<and> mset out = mset routes"
proof -
  from scoreLoop_post [of routes inp "[]"]
  obtain wd where wd: "scoreLoop routes inp [] = Some wd" "map route wd = routes" by auto
  let ?s = "sort_Slice wd (\<lambda>a b. dev a < dev b)"
  have "mset ?s = mset wd" by (simp add: sort_Slice_def foldl_insertLeft_mset)
  then have "mset (map route ?s) = mset (map route wd)" by simp
  with wd show ?thesis by (simp add: Search_unfiltered_def)
qed

section \<open>The sentinels do not reach the score\<close>





end
